theory Spec2Isabelle
  imports Main "HOL-Library.Word"
begin

unbundle bit_operations_syntax

section \<open>Machine types\<close>

text \<open>
  The allocator of \<^verbatim>\<open>stack_allocator.hpp\<close> is modelled on an LP64 platform:
  \<^verbatim>\<open>std::size_t\<close> and \<^verbatim>\<open>std::uintptr_t\<close> are 64-bit unsigned integers whose
  arithmetic wraps around, a \<^verbatim>\<open>char*\<close> is the 64-bit address it holds, and
  \<^verbatim>\<open>unsigned int\<close> (the type of the literal \<^verbatim>\<open>0u\<close>) has 32 bits.
\<close>

type_synonym size_t = "64 word"
type_synonym addr = "64 word"
type_synonym uint = "32 word"

datatype error =
    OutOfMemory       \<comment> \<open>the raw memory source supplies no block\<close>
  | BlockTooSmall     \<comment> \<open>the assertion "block size too small" of \<^verbatim>\<open>allocate\<close> fails\<close>
  | EmptyChain        \<comment> \<open>a block is released from a chain that holds none\<close>

section \<open>The block chain\<close>

text \<open>
  Modelled from the spec: the block chain \<^verbatim>\<open>detail::block_list\<close> of
  \<^verbatim>\<open>detail/block_list.hpp\<close>, which is not among the sources at hand. Section 6 of the
  specification describes it: blocks in acquisition order; \<^verbatim>\<open>allocate\<close> appends a
  block whose size is the announced next block size and returns its memory and size,
  \<^verbatim>\<open>deallocate\<close> releases the most recently acquired block, \<^verbatim>\<open>size\<close> is the block
  count and \<^verbatim>\<open>next_block_size\<close> the size of the block the next \<^verbatim>\<open>allocate\<close> would
  produce. The model keeps the blocks in a list, most recent first. The growth policy
  \<open>grow\<close> and the answer \<open>raw\<close> of the raw memory source (the address of the new region,
  or \<open>None\<close> when it has no memory) are parameters.
\<close>

record block_info =
  memory :: addr
  block_size :: size_t

record block_list =
  used :: "block_info list"
  cur_block_size :: size_t

text \<open>Modelled from the spec: \<^verbatim>\<open>block_list::allocate\<close>, which acquires and appends
  a block of the size the chain announced and lets the growth policy choose the next one.\<close>

definition list_allocate ::
  "(size_t \<Rightarrow> size_t) \<Rightarrow> addr option \<Rightarrow> block_list \<Rightarrow> error + (block_info \<times> block_list)" where
  "list_allocate grow raw l =
     (case raw of
        None \<Rightarrow> Inl OutOfMemory
      | Some mem \<Rightarrow>
          (let block = \<lparr>memory = mem, block_size = cur_block_size l\<rparr>
           in Inr (block, \<lparr>used = block # used l,
                           cur_block_size = grow (cur_block_size l)\<rparr>)))"

text \<open>Modelled from the spec: \<^verbatim>\<open>block_list::deallocate\<close>, which releases the most
  recently acquired block. A chain without blocks has nothing to release; the model
  reports that as \<open>None\<close>.\<close>

definition list_deallocate :: "block_list \<Rightarrow> block_list option" where
  "list_deallocate l =
     (case used l of
        [] \<Rightarrow> None
      | b # bs \<Rightarrow> Some (l\<lparr>used := bs\<rparr>))"

text \<open>Modelled from the spec: \<^verbatim>\<open>block_list::size\<close>, the block count as a
  \<^verbatim>\<open>std::size_t\<close>.\<close>

definition list_size :: "block_list \<Rightarrow> size_t" where
  "list_size l = of_nat (length (used l))"

text \<open>Modelled from the spec: \<^verbatim>\<open>block_list::next_block_size\<close>, a pure query.\<close>

definition next_block_size :: "block_list \<Rightarrow> size_t" where
  "next_block_size l = cur_block_size l"

section \<open>The memory stack\<close>

text \<open>The members \<^verbatim>\<open>list_\<close>, \<^verbatim>\<open>cur_\<close> and \<^verbatim>\<open>cur_end_\<close> of the class are the
  fields \<open>stack_list\<close>, \<open>stack_cur\<close> and \<open>stack_cur_end\<close> (a name cannot end in an
  underscore here).\<close>

record memory_stack =
  stack_list :: block_list
  stack_cur :: addr
  stack_cur_end :: addr

record marker =
  index :: size_t
  cur :: addr
  cur_end :: addr

definition capacity :: "memory_stack \<Rightarrow> size_t" where
  "capacity s = stack_cur_end s - stack_cur s"

definition next_capacity :: "memory_stack \<Rightarrow> size_t" where
  "next_capacity s = next_block_size (stack_list s)"

definition align_offset :: "size_t \<Rightarrow> memory_stack \<Rightarrow> size_t" where
  "align_offset alignment s =
     (let address = stack_cur s;
          misaligned = address AND (alignment - 1)
      in misaligned * (alignment - misaligned))"

definition allocate_block ::
  "(size_t \<Rightarrow> size_t) \<Rightarrow> addr option \<Rightarrow> memory_stack \<Rightarrow> error + memory_stack" where
  "allocate_block grow raw s =
     (case list_allocate grow raw (stack_list s) of
        Inl e \<Rightarrow> Inl e
      | Inr (block, l) \<Rightarrow>
          Inr (s\<lparr>stack_list := l, stack_cur := memory block,
                 stack_cur_end := memory block + block_size block\<rparr>))"

text \<open>The constructor builds the chain with the start block size and acquires the first
  block at once. Both cursors are uninitialised until \<^verbatim>\<open>allocate_block\<close> has set them;
  the model starts them at 0, which \<open>allocate_block\<close> overwrites.\<close>

definition new_memory_stack ::
  "(size_t \<Rightarrow> size_t) \<Rightarrow> addr option \<Rightarrow> size_t \<Rightarrow> error + memory_stack" where
  "new_memory_stack grow raw start_size =
     allocate_block grow raw
       \<lparr>stack_list = \<lparr>used = [], cur_block_size = start_size\<rparr>, stack_cur = 0, stack_cur_end = 0\<rparr>"

text \<open>The last four statements of \<^verbatim>\<open>allocate\<close>: align the cursor, remember it, bump
  it by the size, return the remembered address.\<close>

definition bump :: "size_t \<Rightarrow> size_t \<Rightarrow> memory_stack \<Rightarrow> addr \<times> memory_stack" where
  "bump offset sz s =
     (let s1 = s\<lparr>stack_cur := stack_cur s + offset\<rparr>;
          mem = stack_cur s1;
          s2 = s1\<lparr>stack_cur := stack_cur s1 + sz\<rparr>
      in (mem, s2))"

text \<open>\<^verbatim>\<open>allocate\<close>. The assertion after the block switch is a branch of the model: where
  it fails the result is \<open>BlockTooSmall\<close>.\<close>

definition allocate ::
  "(size_t \<Rightarrow> size_t) \<Rightarrow> addr option \<Rightarrow> size_t \<Rightarrow> size_t \<Rightarrow> memory_stack
     \<Rightarrow> error + (addr \<times> memory_stack)" where
  "allocate grow raw sz alignment s =
     (let offset = align_offset alignment s
      in if offset + sz > capacity s
         then (case allocate_block grow raw s of
                 Inl e \<Rightarrow> Inl e
               | Inr s1 \<Rightarrow>
                   (let offset1 = align_offset alignment s1
                    in if offset1 + sz \<le> capacity s1
                       then Inr (bump offset1 sz s1)
                       else Inl BlockTooSmall))
         else Inr (bump offset sz s))"

text \<open>\<^verbatim>\<open>allocate\<close> as a release build compiles it: with \<^verbatim>\<open>NDEBUG\<close> defined the
  \<^verbatim>\<open>assert\<close> expands to nothing, and the cursor is bumped whether the block is big
  enough or not.\<close>

definition allocate_ndebug ::
  "(size_t \<Rightarrow> size_t) \<Rightarrow> addr option \<Rightarrow> size_t \<Rightarrow> size_t \<Rightarrow> memory_stack
     \<Rightarrow> error + (addr \<times> memory_stack)" where
  "allocate_ndebug grow raw sz alignment s =
     (let offset = align_offset alignment s
      in if offset + sz > capacity s
         then (case allocate_block grow raw s of
                 Inl e \<Rightarrow> Inl e
               | Inr s1 \<Rightarrow>
                   (let offset1 = align_offset alignment s1
                    in Inr (bump offset1 sz s1)))
         else Inr (bump offset sz s))"

definition top_marker :: "memory_stack \<Rightarrow> marker" where
  "top_marker s = \<lparr>index = list_size (stack_list s) - 1, cur = stack_cur s, cur_end = stack_cur_end s\<rparr>"

text \<open>The release loop of \<^verbatim>\<open>unwind\<close>: \<^verbatim>\<open>for (auto i = 0u; i != diff; ++i)
  list_.deallocate();\<close>. The counter is an \<^verbatim>\<open>unsigned int\<close>, widened to
  \<^verbatim>\<open>std::size_t\<close> for the comparison and incremented modulo \<open>2 ^ 32\<close>.\<close>

function unwind_loop :: "uint \<Rightarrow> size_t \<Rightarrow> block_list \<Rightarrow> error + block_list" where
  "unwind_loop i diff l =
     (if ucast i = diff then Inr l
      else (case list_deallocate l of
              None \<Rightarrow> Inl EmptyChain
            | Some l' \<Rightarrow> unwind_loop (i + 1) diff l'))"
  by pat_completeness auto
termination
  by (relation "measure (\<lambda>(i, diff, l). length (used l))")
     (auto simp: list_deallocate_def split: list.splits)

declare unwind_loop.simps [simp del]

text \<open>The number of blocks \<^verbatim>\<open>unwind\<close> sets out to release (its local \<^verbatim>\<open>diff\<close>).\<close>

definition unwind_diff :: "marker \<Rightarrow> memory_stack \<Rightarrow> size_t" where
  "unwind_diff m s = list_size (stack_list s) - index m - 1"

text \<open>\<^verbatim>\<open>unwind\<close>. The source restores the cursors from \<^verbatim>\<open>m.cur_\<close> and
  \<^verbatim>\<open>m.cur_end_\<close>; the marker's members are named \<^verbatim>\<open>cur\<close> and \<^verbatim>\<open>cur_end\<close>, and
  these are what the model reads.\<close>

definition unwind :: "marker \<Rightarrow> memory_stack \<Rightarrow> error + memory_stack" where
  "unwind m s =
     (let diff = unwind_diff m s
      in case unwind_loop 0 diff (stack_list s) of
           Inl e \<Rightarrow> Inl e
         | Inr l \<Rightarrow> Inr (s\<lparr>stack_list := l, stack_cur := cur m, stack_cur_end := cur_end m\<rparr>))"

section \<open>The allocator adapter\<close>

text \<open>\<^verbatim>\<open>stack_allocator\<close> holds a pointer to the stack it serves; its operations are
  modelled on the state of that stack.\<close>

definition allocate_node ::
  "(size_t \<Rightarrow> size_t) \<Rightarrow> addr option \<Rightarrow> size_t \<Rightarrow> size_t \<Rightarrow> memory_stack
     \<Rightarrow> error + (addr \<times> memory_stack)" where
  "allocate_node grow raw sz alignment s = allocate grow raw sz alignment s"

definition deallocate_node :: "addr \<Rightarrow> size_t \<Rightarrow> size_t \<Rightarrow> memory_stack \<Rightarrow> memory_stack" where
  "deallocate_node p sz alignment s = s"

definition max_node_size :: "memory_stack \<Rightarrow> size_t" where
  "max_node_size s = next_capacity s"

definition max_array_size :: "memory_stack \<Rightarrow> size_t" where
  "max_array_size s = next_capacity s"

section \<open>The padding of the specification\<close>

text \<open>The padding as the specification words it (section 4.1, step 1): 0 where the
  cursor is a multiple of the alignment, and otherwise the alignment minus the
  remainder. It is compared with \<open>align_offset\<close>, which is the source's formula.\<close>

definition spec_padding :: "size_t \<Rightarrow> memory_stack \<Rightarrow> size_t" where
  "spec_padding alignment s =
     (if stack_cur s mod alignment = 0 then 0
      else alignment - stack_cur s mod alignment)"

section \<open>Sequences of allocations\<close>

text \<open>A request is one call of \<^verbatim>\<open>allocate\<close>: its size, its alignment, and what the raw
  memory source would answer should the call ask the chain for a block.\<close>

type_synonym request = "addr option \<times> size_t \<times> size_t"

definition req_size :: "request \<Rightarrow> size_t" where
  "req_size r = fst (snd r)"

text \<open>The calls of a sequence, one after the other on the same stack, with the pointers
  they return; the first failure ends the run.\<close>

fun allocate_seq ::
  "(size_t \<Rightarrow> size_t) \<Rightarrow> request list \<Rightarrow> memory_stack
     \<Rightarrow> error + (addr list \<times> memory_stack)" where
  "allocate_seq grow [] s = Inr ([], s)"
| "allocate_seq grow ((raw, sz, alignment) # rs) s =
     (case allocate grow raw sz alignment s of
        Inl e \<Rightarrow> Inl e
      | Inr (p, s1) \<Rightarrow>
          (case allocate_seq grow rs s1 of
             Inl e \<Rightarrow> Inl e
           | Inr (ps, s2) \<Rightarrow> Inr (p # ps, s2)))"

text \<open>The specification's account of a sequence of requests served in the active block
  (section 4.1): every request is padded with \<open>spec_padding\<close> at the cursor it finds, the
  pointer it gets is the padded cursor, and the cursor then moves past its bytes.
  \<open>spec_next\<close> is the stack after one such request, \<open>padded_total\<close> the number of bytes
  the padded requests take together, \<open>spec_pointers\<close> the pointers they get.\<close>

definition spec_next :: "size_t \<Rightarrow> size_t \<Rightarrow> memory_stack \<Rightarrow> memory_stack" where
  "spec_next sz alignment s = s\<lparr>stack_cur := stack_cur s + spec_padding alignment s + sz\<rparr>"

fun padded_total :: "request list \<Rightarrow> memory_stack \<Rightarrow> nat" where
  "padded_total [] s = 0"
| "padded_total ((raw, sz, alignment) # rs) s =
     unat (spec_padding alignment s) + unat sz + padded_total rs (spec_next sz alignment s)"

fun spec_pointers :: "request list \<Rightarrow> memory_stack \<Rightarrow> addr list" where
  "spec_pointers [] s = []"
| "spec_pointers ((raw, sz, alignment) # rs) s =
     (stack_cur s + spec_padding alignment s) # spec_pointers rs (spec_next sz alignment s)"

text \<open>An alignment is a power of two that a \<^verbatim>\<open>std::size_t\<close> holds.\<close>

definition power_of_two :: "size_t \<Rightarrow> bool" where
  "power_of_two a = (a \<in> (\<lambda>k. 2 ^ k) ` {..<64})"

text \<open>Every request of the sequence has a power-of-two alignment and finds the cursor
  either aligned or one byte past an aligned address.\<close>

fun nearly_aligned :: "request list \<Rightarrow> memory_stack \<Rightarrow> bool" where
  "nearly_aligned [] s = True"
| "nearly_aligned ((raw, sz, alignment) # rs) s =
     (power_of_two alignment
      \<and> (stack_cur s mod alignment = 0 \<or> stack_cur s mod alignment = 1)
      \<and> nearly_aligned rs (spec_next sz alignment s))"

text \<open>The addresses of the bytes \<open>[p, p + size)\<close>.\<close>

definition byte_range :: "addr \<Rightarrow> size_t \<Rightarrow> nat set" where
  "byte_range p sz = {unat p ..< unat p + unat sz}"

section \<open>The invariant of the stack\<close>

text \<open>A region handed out by the raw memory source lies in the address space: the
  address one past its end is still an address.\<close>

definition region_ok :: "addr \<Rightarrow> size_t \<Rightarrow> bool" where
  "region_ok mem sz = (unat mem + unat sz < 2 ^ 64)"

text \<open>The invariant of section 3 of the specification: the chain has an active block
  (the most recent one), the cursor is not beyond the block end, and both lie between
  the start of the active block and the address one past its end.\<close>

definition stack_inv :: "memory_stack \<Rightarrow> bool" where
  "stack_inv s =
     (case used (stack_list s) of
        [] \<Rightarrow> False
      | b # bs \<Rightarrow>
          unat (memory b) \<le> unat (stack_cur s)
          \<and> unat (stack_cur s) \<le> unat (stack_cur_end s)
          \<and> unat (stack_cur_end s) \<le> unat (memory b) + unat (block_size b))"

text \<open>The precondition that the specification puts on the block chain (sections 4.1 and
  6): the block a switch would acquire (at the address \<open>raw\<close> names, of the size the
  chain announces) is a region of the address space and holds the request together with
  the padding of the specification at the start of that block.\<close>

definition fresh_block_fits :: "addr option \<Rightarrow> size_t \<Rightarrow> size_t \<Rightarrow> memory_stack \<Rightarrow> bool" where
  "fresh_block_fits raw sz alignment s =
     (case raw of
        None \<Rightarrow> False
      | Some mem \<Rightarrow>
          region_ok mem (next_capacity s)
          \<and> unat (spec_padding alignment (s\<lparr>stack_cur := mem\<rparr>)) + unat sz
              \<le> unat (next_capacity s))"

section \<open>Sample states\<close>

text \<open>A stack as the constructor leaves it for a start size of 1024, a doubling growth
  policy and a first region at address 4096, and the same stack with the cursor moved.\<close>

definition fresh_stack :: memory_stack where
  "fresh_stack =
     \<lparr>stack_list = \<lparr>used = [\<lparr>memory = 4096, block_size = 1024\<rparr>], cur_block_size = 2048\<rparr>,
      stack_cur = 4096, stack_cur_end = 5120\<rparr>"

definition stack_at :: "addr \<Rightarrow> memory_stack" where
  "stack_at c = fresh_stack\<lparr>stack_cur := c\<rparr>"

text \<open>A growth policy that doubles the block size, and one that keeps it.\<close>

definition doubling :: "size_t \<Rightarrow> size_t" where
  "doubling n = 2 * n"

definition same_size :: "size_t \<Rightarrow> size_t" where
  "same_size n = n"

text \<open>The first two calls of the scenario in section 8 of the specification, and two
  calls that ask for no bytes.\<close>

definition two_requests :: "request list" where
  "two_requests = [(None, 100, 16), (None, 50, 16)]"

definition empty_requests :: "request list" where
  "empty_requests = [(None, 0, 1), (None, 0, 1)]"

text \<open>Two calls of which the second finds the cursor one byte past a multiple of 16.\<close>

definition near_requests :: "request list" where
  "near_requests = [(None, 97, 16), (None, 50, 16)]"

text \<open>Two calls of which the second finds the cursor eight bytes past a multiple of 16.\<close>

definition overpadded_requests :: "request list" where
  "overpadded_requests = [(None, 904, 1), (Some 8192, 100, 16)]"

text \<open>The fresh stack after a release build has served \<open>allocate(2000, 32)\<close> from a second
  block of 2048 bytes at the address 8208.\<close>

definition overrun_stack :: memory_stack where
  "overrun_stack =
     \<lparr>stack_list =
        \<lparr>used = [\<lparr>memory = 8208, block_size = 2048\<rparr>, \<lparr>memory = 4096, block_size = 1024\<rparr>],
         cur_block_size = 4096\<rparr>,
      stack_cur = 10464, stack_cur_end = 10256\<rparr>"

text \<open>A stack whose first block lies at the address \<open>2 ^ 32\<close>.\<close>

definition big_stack :: memory_stack where
  "big_stack =
     \<lparr>stack_list = \<lparr>used = [\<lparr>memory = 4294967296, block_size = 1024\<rparr>], cur_block_size = 2048\<rparr>,
      stack_cur = 4294967296, stack_cur_end = 4294968320\<rparr>"

text \<open>A stack of 16-byte blocks (start size 16, constant growth, first region at 4096)
  whose only block is used up, and \<open>n\<close> requests of 16 bytes for it, each of which needs a
  block of its own; the raw memory source answers the \<open>j\<close>-th of them with the address
  \<open>8192 + 16 * j\<close>.\<close>

definition full_stack :: memory_stack where
  "full_stack =
     \<lparr>stack_list = \<lparr>used = [\<lparr>memory = 4096, block_size = 16\<rparr>], cur_block_size = 16\<rparr>,
      stack_cur = 4112, stack_cur_end = 4112\<rparr>"

definition block_requests :: "nat \<Rightarrow> request list" where
  "block_requests n = map (\<lambda>j. (Some (8192 + 16 * of_nat j), 16, 1)) [0..<n]"

section \<open>Words and powers of two\<close>

lemma unat_p2: "k < LENGTH('a) \<Longrightarrow> unat (2 ^ k :: 'a::len word) = 2 ^ k"
proof -
  assume k: "k < LENGTH('a)"
  have "unat (2 ^ k :: 'a word) = unat (of_nat (2 ^ k) :: 'a word)" by simp
  also have "\<dots> = 2 ^ k mod 2 ^ LENGTH('a)" by (simp only: unat_of_nat)
  also have "\<dots> = 2 ^ k" using k by simp
  finally show ?thesis .
qed

lemma and_p2m1_eq_mod: "(x :: 'a::len word) AND (2 ^ k - 1) = x mod 2 ^ k"
  by (simp flip: mask_eq_exp_minus_1 take_bit_eq_mask add: take_bit_eq_mod)

lemma unat_mod_p2:
  "k < LENGTH('a) \<Longrightarrow> unat ((x :: 'a::len word) mod 2 ^ k) = unat x mod 2 ^ k"
  by (simp add: unat_mod unat_p2)

text \<open>Two positive numbers that add up to \<open>2 ^ k - 1\<close> are one odd and one even, and
  both are below \<open>2 ^ k\<close>: their product is no multiple of a larger power of two.\<close>

lemma odd_pair_no_big_power:
  fixes x y :: nat
  assumes "k < n" "1 \<le> x" "1 \<le> y" "x + y + 1 = 2 ^ k"
  shows "\<not> 2 ^ n dvd x * y"
proof
  assume d: "(2::nat) ^ n dvd x * y"
  have k1: "1 \<le> k" using assms by (cases k) auto
  then have "even ((2::nat) ^ k)" by simp
  then have "odd (x + y)" using assms(4) by (metis even_plus_one_iff)
  then consider "odd x" | "odd y" by auto
  then show False
  proof cases
    case 1
    then have "coprime ((2::nat) ^ n) x" by simp
    then have "(2::nat) ^ n dvd y" using d by (simp add: coprime_dvd_mult_right_iff)
    then have "(2::nat) ^ n \<le> y" using assms(3) by (auto dest: dvd_imp_le)
    moreover have "y < 2 ^ k" using assms by linarith
    moreover have "(2::nat) ^ k < 2 ^ n" using assms(1) by simp
    ultimately show False by linarith
  next
    case 2
    then have "coprime ((2::nat) ^ n) y" by simp
    then have "(2::nat) ^ n dvd x" using d by (simp add: coprime_dvd_mult_left_iff)
    then have "(2::nat) ^ n \<le> x" using assms(2) by (auto dest: dvd_imp_le)
    moreover have "x < 2 ^ k" using assms by linarith
    moreover have "(2::nat) ^ k < 2 ^ n" using assms(1) by simp
    ultimately show False by linarith
  qed
qed

lemma misaligned_product:
  fixes m :: "'a::len word"
  assumes k: "k < LENGTH('a)" and m: "unat m < 2 ^ k" and m0: "m \<noteq> 0" and m1: "m \<noteq> 1"
  shows "m * (2 ^ k - m) \<noteq> 2 ^ k - m"
proof
  assume eq: "m * (2 ^ k - m) = 2 ^ k - m"
  have z: "(m - 1) * (2 ^ k - m) = 0"
    using eq by (simp add: algebra_simps)
  have um: "2 \<le> unat m"
  proof -
    have "unat m \<noteq> 0" using m0 by (simp add: unat_eq_0)
    moreover have "unat m \<noteq> 1" using m1 by (metis unat_1 word_unat_eq_iff)
    ultimately show ?thesis by linarith
  qed
  have le: "m \<le> 2 ^ k" using m k by (simp add: word_le_nat_alt unat_p2)
  have x: "unat (m - 1) = unat m - 1" using m0 by (simp add: unat_minus_one)
  have y: "unat (2 ^ k - m) = 2 ^ k - unat m" using le k by (simp add: unat_sub unat_p2)
  have "unat ((m - 1) * (2 ^ k - m)) = 0" using z by simp
  then have "(unat m - 1) * (2 ^ k - unat m) mod 2 ^ LENGTH('a) = 0"
    by (simp only: unat_word_ariths x y)
  then have "2 ^ LENGTH('a) dvd (unat m - 1) * (2 ^ k - unat m)"
    by (simp only: dvd_eq_mod_eq_0)
  moreover have "\<not> 2 ^ LENGTH('a) dvd (unat m - 1) * (2 ^ k - unat m)"
    by (rule odd_pair_no_big_power [OF k]) (use um m in auto)
  ultimately show False by blast
qed

lemma unat_size_lt: "unat (i :: 64 word) < 2 ^ 64"
  using unsigned_less [of i, where 'a = nat] by simp

lemma unat_uint_lt: "unat (i :: 32 word) < 2 ^ 32"
  using unsigned_less [of i, where 'a = nat] by simp

lemma word_sum_le:
  fixes a b c :: "64 word"
  assumes "unat a + unat b \<le> unat c"
  shows "unat (a + b) = unat a + unat b" and "a + b \<le> c"
proof -
  have "unat a + unat b < 2 ^ LENGTH(64)" using assms unat_size_lt [of c] by simp
  then show 1: "unat (a + b) = unat a + unat b" by (simp only: unat_add_lem [THEN iffD1])
  show "a + b \<le> c" using 1 assms by (simp add: word_le_nat_alt)
qed

text \<open>A cursor \<open>c\<close> below the end \<open>e\<close> that advances by no more than the distance
  between them does not wrap around and stays below the end.\<close>

lemma cursor_advance:
  fixes c e off sz :: "64 word"
  assumes ce: "c \<le> e" and fit: "unat off + unat sz \<le> unat (e - c)"
  shows "unat (c + off) = unat c + unat off"
    and "unat (c + off + sz) = unat c + unat off + unat sz"
    and "c + off + sz \<le> e"
    and "unat (e - (c + off + sz)) = unat (e - c) - (unat off + unat sz)"
proof -
  have sub: "unat (e - c) = unat e - unat c" using ce by (simp add: unat_sub)
  have cle: "unat c \<le> unat e" using ce by (simp add: word_le_nat_alt)
  have e: "unat e < 2 ^ LENGTH(64)" using unat_size_lt [of e] by simp
  have "unat c + unat off < 2 ^ LENGTH(64)" using fit sub cle e by linarith
  then show 1: "unat (c + off) = unat c + unat off" by (simp only: unat_add_lem [THEN iffD1])
  have "unat (c + off) + unat sz < 2 ^ LENGTH(64)" using fit sub cle e 1 by linarith
  then have "unat (c + off + sz) = unat (c + off) + unat sz"
    by (simp only: unat_add_lem [THEN iffD1])
  then show 2: "unat (c + off + sz) = unat c + unat off + unat sz" using 1 by simp
  show 3: "c + off + sz \<le> e" using 2 fit sub cle by (simp add: word_le_nat_alt)
  show "unat (e - (c + off + sz)) = unat (e - c) - (unat off + unat sz)"
    using 3 2 sub by (simp add: unat_sub)
qed

section \<open>Single steps\<close>

lemmas run_simps = allocate_def align_offset_def capacity_def bump_def Let_def
  fresh_stack_def stack_at_def

lemma allocate_block_Some:
  "allocate_block grow (Some mem) s =
     Inr (s\<lparr>stack_list :=
              \<lparr>used = \<lparr>memory = mem, block_size = cur_block_size (stack_list s)\<rparr>
                        # used (stack_list s),
               cur_block_size = grow (cur_block_size (stack_list s))\<rparr>,
            stack_cur := mem,
            stack_cur_end := mem + cur_block_size (stack_list s)\<rparr>)"
  by (simp add: allocate_block_def list_allocate_def Let_def)

lemma allocate_block_None: "allocate_block grow None s = Inl OutOfMemory"
  by (simp add: allocate_block_def list_allocate_def)

lemma fst_bump: "fst (bump off sz s) = stack_cur s + off"
  by (simp add: bump_def Let_def)

lemma snd_bump: "snd (bump off sz s) = s\<lparr>stack_cur := stack_cur s + off + sz\<rparr>"
  by (simp add: bump_def Let_def)

lemma bump_eq: "bump off sz s = (stack_cur s + off, s\<lparr>stack_cur := stack_cur s + off + sz\<rparr>)"
  by (simp add: bump_def Let_def)

text \<open>A request that fits in what is left of the active block is served there.\<close>

lemma allocate_in_block:
  assumes "unat (align_offset al s) + unat sz \<le> unat (capacity s)"
  shows "allocate grow raw sz al s = Inr (bump (align_offset al s) sz s)"
proof -
  have "align_offset al s + sz \<le> capacity s" using assms by (rule word_sum_le)
  then have "\<not> capacity s < align_offset al s + sz" by (simp add: not_less)
  then show ?thesis by (simp add: allocate_def Let_def)
qed

lemma capacity_bump:
  assumes "stack_cur s \<le> stack_cur_end s"
    and "unat off + unat sz \<le> unat (capacity s)"
  shows "stack_cur (snd (bump off sz s)) \<le> stack_cur_end (snd (bump off sz s))"
    and "unat (capacity (snd (bump off sz s))) = unat (capacity s) - (unat off + unat sz)"
    and "unat (fst (bump off sz s)) = unat (stack_cur s) + unat off"
    and "unat (stack_cur (snd (bump off sz s))) = unat (stack_cur s) + unat off + unat sz"
  using assms cursor_advance [of "stack_cur s" "stack_cur_end s" off sz]
  by (simp_all add: capacity_def bump_eq)

lemma region_end:
  assumes "region_ok mem bsz"
  shows "unat (mem + bsz) = unat mem + unat bsz" and "mem \<le> mem + bsz"
proof -
  have "unat mem + unat bsz < 2 ^ LENGTH(64)" using assms by (simp add: region_ok_def)
  then show 1: "unat (mem + bsz) = unat mem + unat bsz"
    by (simp only: unat_add_lem [THEN iffD1])
  then show "mem \<le> mem + bsz" by (simp add: word_le_nat_alt)
qed

lemma align_offset_cur:
  "align_offset al (s\<lparr>stack_list := l, stack_cur := c, stack_cur_end := e\<rparr>)
     = align_offset al (s\<lparr>stack_cur := c\<rparr>)"
  by (simp add: align_offset_def)

text \<open>A request that does not fit is served at the start of the block the chain
  supplies.\<close>

lemma allocate_switch:
  assumes trigger: "capacity s < align_offset al s + sz"
    and fits: "unat (align_offset al (s\<lparr>stack_cur := mem\<rparr>)) + unat sz
                 \<le> unat (next_capacity s)"
  shows "allocate grow (Some mem) sz al s =
           Inr (mem + align_offset al (s\<lparr>stack_cur := mem\<rparr>),
                s\<lparr>stack_list :=
                     \<lparr>used = \<lparr>memory = mem, block_size = next_capacity s\<rparr> # used (stack_list s),
                      cur_block_size = grow (next_capacity s)\<rparr>,
                  stack_cur := mem + align_offset al (s\<lparr>stack_cur := mem\<rparr>) + sz,
                  stack_cur_end := mem + next_capacity s\<rparr>)"
proof -
  let ?off = "align_offset al (s\<lparr>stack_cur := mem\<rparr>)"
  have "?off + sz \<le> next_capacity s" using fits by (rule word_sum_le)
  then show ?thesis
    using trigger
    by (simp add: allocate_def Let_def allocate_block_Some align_offset_cur capacity_def
          bump_eq next_capacity_def next_block_size_def)
qed

text \<open>Where the cursor is aligned or one byte past an aligned address, \<open>align_offset\<close>
  returns the padding of the specification.\<close>

lemma paddings_agree:
  assumes "stack_cur s mod 2 ^ k = 0 \<or> stack_cur s mod 2 ^ k = 1"
  shows "align_offset (2 ^ k) s = spec_padding (2 ^ k) s"
  using assms
  by (auto simp add: align_offset_def spec_padding_def Let_def and_p2m1_eq_mod)

lemma power_of_twoD: "power_of_two a \<Longrightarrow> \<exists>k<64. a = 2 ^ k"
  by (auto simp add: power_of_two_def)

lemma spec_next_bump: "snd (bump (spec_padding al s) sz s) = spec_next sz al s"
  by (simp add: snd_bump spec_next_def)

section \<open>The padding formula\<close>

text \<open>
  Claim C2, as it is written: the source's padding \<open>misaligned * (alignment - misaligned)\<close>
  equals the conditional padding exactly when the misalignment is 1. It does not hold: at
  address 4096 and alignment 4 the misalignment is 0 and both formulas give 0.
\<close>

theorem C2_agree_when_aligned:
  "align_offset 4 (stack_at 4096) = spec_padding 4 (stack_at 4096)
   \<and> stack_cur (stack_at 4096) mod 4 \<noteq> 1"
  by (simp add: align_offset_def spec_padding_def stack_at_def fresh_stack_def Let_def)

text \<open>
  Claim C2, amended: for an alignment \<open>2 ^ k\<close> and every cursor address, with the
  misalignment being the address modulo the alignment, the source's padding equals the
  conditional padding of the specification exactly when the misalignment is 0 or 1, and
  differs from it for every other misalignment (in 64-bit arithmetic, wrap-around
  included).
\<close>

theorem C2_padding_formulas_agree_iff:
  assumes "k < 64"
  shows "align_offset (2 ^ k) s = spec_padding (2 ^ k) s
         \<longleftrightarrow> (stack_cur s mod 2 ^ k = 0 \<or> stack_cur s mod 2 ^ k = 1)"
proof -
  define m where "m = stack_cur s mod 2 ^ k"
  have lt: "unat m < 2 ^ k"
    using assms by (simp add: m_def unat_mod_p2)
  have a: "align_offset (2 ^ k) s = m * (2 ^ k - m)"
    by (simp add: align_offset_def Let_def and_p2m1_eq_mod m_def)
  have b: "spec_padding (2 ^ k) s = (if m = 0 then 0 else 2 ^ k - m)"
    by (simp add: spec_padding_def m_def)
  show ?thesis
  proof (cases "m = 0 \<or> m = 1")
    case True
    then show ?thesis unfolding a b m_def [symmetric] by auto
  next
    case False
    then have "m * (2 ^ k - m) \<noteq> 2 ^ k - m"
      using misaligned_product [of k m] lt assms by simp
    then show ?thesis unfolding a b m_def [symmetric] using False by simp
  qed
qed

theorem C2_padding_formulas_agree_iff_witness:
  "(3::nat) < 64
   \<and> align_offset (2 ^ 3) (stack_at 4097) = spec_padding (2 ^ 3) (stack_at 4097)
   \<and> align_offset (2 ^ 3) (stack_at 4098) \<noteq> spec_padding (2 ^ 3) (stack_at 4098)"
  using C2_padding_formulas_agree_iff [of 3 "stack_at 4097"]
        C2_padding_formulas_agree_iff [of 3 "stack_at 4098"]
  by (simp add: stack_at_def fresh_stack_def)

section \<open>Unwinding to the current top\<close>

text \<open>
  Claim C7: \<open>unwind (top_marker s)\<close> with no allocation in between leaves the stack as it is: the
  number of blocks to release is zero, the call returns the state it was given, and so
  the block chain, \<open>capacity\<close> and \<open>next_capacity\<close> are what they were.
\<close>

theorem C7_unwind_top_noop:
  "unwind_diff (top_marker s) s = 0 \<and> unwind (top_marker s) s = Inr s"
  by (simp add: unwind_def unwind_diff_def top_marker_def unwind_loop.simps)

section \<open>The adapter's deallocation\<close>

text \<open>
  Claim C8: \<open>deallocate_node\<close> does nothing, whatever its three arguments: the stack the
  adapter refers to is the same afterwards, with its block chain, cursor and block end.
\<close>

theorem C8_deallocate_node_noop:
  "deallocate_node p sz alignment s = s"
  by (simp add: deallocate_node_def)

section \<open>Allocations that stay in the active block\<close>

lemma seq_in_block:
  assumes "stack_cur s \<le> stack_cur_end s"
    and "nearly_aligned rs s"
    and "padded_total rs s \<le> unat (capacity s)"
  shows "\<exists>ps s'. allocate_seq grow rs s = Inr (ps, s')
           \<and> stack_list s' = stack_list s
           \<and> ps = spec_pointers rs s
           \<and> length ps = length rs
           \<and> (\<forall>i < length rs. unat (stack_cur s) \<le> unat (ps ! i))
           \<and> (\<forall>i j. i < j \<and> j < length rs
                 \<longrightarrow> unat (ps ! i) + unat (req_size (rs ! i)) \<le> unat (ps ! j))"
  using assms
proof (induction rs arbitrary: s)
  case Nil
  then show ?case by simp
next
  case (Cons r rs)
  obtain raw sz al where r: "r = (raw, sz, al)" by (cases r) auto
  let ?off = "spec_padding al s"
  let ?s1 = "spec_next sz al s"
  let ?p = "stack_cur s + ?off"
  have near: "power_of_two al" "stack_cur s mod al = 0 \<or> stack_cur s mod al = 1"
      "nearly_aligned rs ?s1"
    using Cons.prems(2) r by simp_all
  obtain k where k: "al = 2 ^ k" using power_of_twoD [OF near(1)] by blast
  have agree: "align_offset al s = ?off"
    using paddings_agree [of s k] near(2) k by simp
  have fit: "unat ?off + unat sz \<le> unat (capacity s)"
    using Cons.prems(3) r by simp
  have b: "bump ?off sz s = (?p, ?s1)" by (simp add: bump_eq spec_next_def)
  have a: "allocate grow raw sz al s = Inr (?p, ?s1)"
    using allocate_in_block [of al s sz grow raw] fit agree b by simp
  have cb: "stack_cur ?s1 \<le> stack_cur_end ?s1"
      "unat (capacity ?s1) = unat (capacity s) - (unat ?off + unat sz)"
      "unat ?p = unat (stack_cur s) + unat ?off"
      "unat (stack_cur ?s1) = unat (stack_cur s) + unat ?off + unat sz"
    using capacity_bump [OF Cons.prems(1) fit] b by simp_all
  have rest: "padded_total rs ?s1 \<le> unat (capacity ?s1)"
    using Cons.prems(3) r cb(2) by simp
  from Cons.IH [OF cb(1) near(3) rest]
  obtain ps s' where ih: "allocate_seq grow rs ?s1 = Inr (ps, s')"
      "stack_list s' = stack_list ?s1" "ps = spec_pointers rs ?s1" "length ps = length rs"
      "\<forall>i < length rs. unat (stack_cur ?s1) \<le> unat (ps ! i)"
      "\<forall>i j. i < j \<and> j < length rs
           \<longrightarrow> unat (ps ! i) + unat (req_size (rs ! i)) \<le> unat (ps ! j)"
    by blast
  have run: "allocate_seq grow (r # rs) s = Inr (?p # ps, s')"
    using a ih(1) r by simp
  have l: "stack_list s' = stack_list s" using ih(2) by (simp add: spec_next_def)
  have sp: "spec_pointers (r # rs) s = ?p # ps" using ih(3) r by simp
  have lower: "\<forall>i < length (r # rs). unat (stack_cur s) \<le> unat ((?p # ps) ! i)"
  proof (intro allI impI)
    fix i assume "i < length (r # rs)"
    then show "unat (stack_cur s) \<le> unat ((?p # ps) ! i)"
      using ih(5) cb(3) cb(4) by (cases i) (auto dest!: spec)
  qed
  have order: "\<forall>i j. i < j \<and> j < length (r # rs)
           \<longrightarrow> unat ((?p # ps) ! i) + unat (req_size ((r # rs) ! i)) \<le> unat ((?p # ps) ! j)"
  proof (intro allI impI)
    fix i j assume ij: "i < j \<and> j < length (r # rs)"
    then obtain j' where j: "j = Suc j'" "j' < length rs" by (cases j) auto
    show "unat ((?p # ps) ! i) + unat (req_size ((r # rs) ! i)) \<le> unat ((?p # ps) ! j)"
    proof (cases i)
      case 0
      have "unat ?p + unat sz = unat (stack_cur ?s1)" using cb(3) cb(4) by simp
      also have "\<dots> \<le> unat (ps ! j')" using ih(5) j(2) by blast
      finally show ?thesis using 0 j r by (simp add: req_size_def)
    next
      case (Suc i')
      then have "i' < j' \<and> j' < length rs" using ij j by simp
      then show ?thesis using ih(6) Suc j by simp
    qed
  qed
  show ?case using run l sp ih(4) lower order by simp
qed

text \<open>
  Claim C5, as it is written: allocations that together fit in the active block return
  strictly increasing ranges. It does not hold for requests of no bytes: on the fresh
  stack two calls \<open>allocate(0, 1)\<close> fit, and both return the address 4096.
\<close>

theorem C5_zero_size_same_pointer:
  "stack_cur fresh_stack \<le> stack_cur_end fresh_stack
   \<and> padded_total empty_requests fresh_stack \<le> unat (capacity fresh_stack)
   \<and> allocate_seq doubling empty_requests fresh_stack = Inr ([4096, 4096], fresh_stack)"
  by (simp add: empty_requests_def spec_padding_def spec_next_def run_simps)

text \<open>
  Claim C5, amended: take a stack whose cursor is not beyond the block end and a
  sequence of \<open>allocate\<close> calls with power-of-two alignments whose requests, padded as the
  specification pads them, together fit in the remaining capacity of the active block,
  and each of which finds the cursor aligned or one byte past an aligned address. Then
  every call succeeds, the block chain is unchanged (no block is acquired), the returned
  pointers are those of the specification, and the returned ranges \<open>[p, p + size)\<close> are in
  ascending order and pairwise disjoint: each ends at or before the start of every later
  one. The pointers are strictly increasing wherever the earlier request has a size
  other than 0. Nothing is said about a request that finds the cursor misaligned by two
  bytes or more.
\<close>

theorem C5_sequence_in_block:
  assumes "stack_cur s \<le> stack_cur_end s"
    and "nearly_aligned rs s"
    and "padded_total rs s \<le> unat (capacity s)"
  shows "\<exists>ps s'. allocate_seq grow rs s = Inr (ps, s')
           \<and> stack_list s' = stack_list s
           \<and> ps = spec_pointers rs s
           \<and> length ps = length rs
           \<and> (\<forall>i j. i < j \<and> j < length rs \<longrightarrow>
                 unat (ps ! i) + unat (req_size (rs ! i)) \<le> unat (ps ! j)
                 \<and> byte_range (ps ! i) (req_size (rs ! i))
                     \<inter> byte_range (ps ! j) (req_size (rs ! j)) = {}
                 \<and> (req_size (rs ! i) \<noteq> 0 \<longrightarrow> ps ! i < ps ! j))"
proof -
  from seq_in_block [OF assms, of grow]
  obtain ps s' where run: "allocate_seq grow rs s = Inr (ps, s')"
      "stack_list s' = stack_list s" "ps = spec_pointers rs s" "length ps = length rs"
    and order: "\<forall>i j. i < j \<and> j < length rs
           \<longrightarrow> unat (ps ! i) + unat (req_size (rs ! i)) \<le> unat (ps ! j)"
    by blast
  have "unat (ps ! i) + unat (req_size (rs ! i)) \<le> unat (ps ! j)
        \<and> byte_range (ps ! i) (req_size (rs ! i))
            \<inter> byte_range (ps ! j) (req_size (rs ! j)) = {}
        \<and> (req_size (rs ! i) \<noteq> 0 \<longrightarrow> ps ! i < ps ! j)"
    if ij: "i < j \<and> j < length rs" for i j
  proof -
    have le: "unat (ps ! i) + unat (req_size (rs ! i)) \<le> unat (ps ! j)"
      using order ij by blast
    have disj: "byte_range (ps ! i) (req_size (rs ! i))
            \<inter> byte_range (ps ! j) (req_size (rs ! j)) = {}"
      using le by (auto simp: byte_range_def)
    have "ps ! i < ps ! j" if "req_size (rs ! i) \<noteq> 0"
    proof -
      have "0 < unat (req_size (rs ! i))" using that by (simp add: unat_gt_0)
      then show ?thesis using le by (simp add: word_less_nat_alt)
    qed
    then show ?thesis using le disj by blast
  qed
  then show ?thesis using run by blast
qed

theorem C5_sequence_in_block_witness:
  "stack_cur fresh_stack \<le> stack_cur_end fresh_stack
   \<and> nearly_aligned near_requests fresh_stack
   \<and> padded_total near_requests fresh_stack \<le> unat (capacity fresh_stack)
   \<and> (\<exists>ps s'. allocate_seq doubling near_requests fresh_stack = Inr (ps, s')
           \<and> stack_list s' = stack_list fresh_stack
           \<and> ps = [4096, 4208]
           \<and> ps ! 0 < ps ! 1)"
proof -
  have p: "power_of_two 16"
    by (simp add: power_of_two_def) (rule image_eqI [where x = 4], simp_all)
  have h1: "stack_cur fresh_stack \<le> stack_cur_end fresh_stack"
    by (simp add: fresh_stack_def)
  have h2: "nearly_aligned near_requests fresh_stack"
    using p by (simp add: near_requests_def spec_padding_def spec_next_def fresh_stack_def)
  have h3: "padded_total near_requests fresh_stack \<le> unat (capacity fresh_stack)"
    by (simp add: near_requests_def spec_padding_def spec_next_def run_simps)
  have sp: "spec_pointers near_requests fresh_stack = [4096, 4208]"
    by (simp add: near_requests_def spec_padding_def spec_next_def fresh_stack_def)
  have nz: "req_size (near_requests ! 0) \<noteq> 0" "(0::nat) < 1 \<and> 1 < length near_requests"
    by (simp_all add: near_requests_def req_size_def)
  show ?thesis
    using C5_sequence_in_block [OF h1 h2 h3, of doubling] h1 h2 h3 sp nz by force
qed

text \<open>A request that finds the cursor misaligned by two bytes or more gets more padding
  than the specification gives it. On the fresh stack \<open>allocate(904, 1)\<close> and
  \<open>allocate(100, 16)\<close> take 1012 of the 1024 bytes with the padding of the specification;
  the code pads the second request by 64 bytes instead of 8 and acquires a block for it.\<close>

lemma overpadded_request_acquires_block:
  "padded_total overpadded_requests fresh_stack = 1012
   \<and> unat (capacity fresh_stack) = 1024
   \<and> allocate_seq doubling overpadded_requests fresh_stack
       = Inr ([4096, 8192],
              \<lparr>stack_list =
                 \<lparr>used = [\<lparr>memory = 8192, block_size = 2048\<rparr>,
                          \<lparr>memory = 4096, block_size = 1024\<rparr>],
                  cur_block_size = 4096\<rparr>,
               stack_cur = 8292, stack_cur_end = 10240\<rparr>)"
  by (simp add: overpadded_requests_def spec_padding_def spec_next_def allocate_block_Some
        doubling_def run_simps)

section \<open>The switch to a new block\<close>

text \<open>Where the new block starts aligned or one byte past an aligned address, a request
  that exceeds the remaining capacity and that the new block can hold is served in the
  new block: the chain has exactly one block more, the returned range lies in the new
  block, and the capacity afterwards is the size of the new block minus the padding of
  the specification at its start and the size.\<close>

lemma block_switch_nearly_aligned:
  assumes trigger: "capacity s < align_offset (2 ^ k) s + sz"
    and near: "mem mod 2 ^ k = 0 \<or> mem mod 2 ^ k = 1"
    and fits: "fresh_block_fits (Some mem) sz (2 ^ k) s"
  shows "\<exists>p s'. allocate grow (Some mem) sz (2 ^ k) s = Inr (p, s')
           \<and> used (stack_list s')
               = \<lparr>memory = mem, block_size = next_capacity s\<rparr> # used (stack_list s)
           \<and> p = mem + spec_padding (2 ^ k) (s\<lparr>stack_cur := mem\<rparr>)
           \<and> unat mem \<le> unat p
           \<and> unat p + unat sz \<le> unat mem + unat (next_capacity s)
           \<and> unat (capacity s')
               = unat (next_capacity s)
                   - (unat (spec_padding (2 ^ k) (s\<lparr>stack_cur := mem\<rparr>)) + unat sz)"
proof -
  let ?off = "spec_padding (2 ^ k) (s\<lparr>stack_cur := mem\<rparr>)"
  let ?bsz = "next_capacity s"
  have agree: "align_offset (2 ^ k) (s\<lparr>stack_cur := mem\<rparr>) = ?off"
    using near by (intro paddings_agree) simp
  have r: "region_ok mem ?bsz" and f: "unat ?off + unat sz \<le> unat ?bsz"
    using fits by (simp_all add: fresh_block_fits_def)
  have f2: "unat (align_offset (2 ^ k) (s\<lparr>stack_cur := mem\<rparr>)) + unat sz \<le> unat ?bsz"
    using f agree by simp
  note re = region_end [OF r]
  have f': "unat ?off + unat sz \<le> unat (mem + ?bsz - mem)" using f by simp
  note ca = cursor_advance [OF re(2) f']
  show ?thesis
    using allocate_switch [OF trigger f2, of grow] ca re(1) f agree
    by (simp add: capacity_def)
qed

text \<open>
  Claim C4: an allocation whose padding plus size exceeds the remaining capacity
  acquires exactly one block and then succeeds in that block. The code does not meet it.
  On the fresh stack \<open>allocate(2000, 32)\<close> exceeds the capacity of 1024; the chain supplies a
  block of 2048 bytes at the address 8208, which holds the request with its padding of 16
  bytes; yet \<open>align_offset\<close> returns \<open>16 * 16 = 256\<close>, and since \<open>256 + 2000\<close> is more than
  2048 the assertion of \<open>allocate\<close> fails. And where the sum of padding and size does not
  fit a \<^verbatim>\<open>std::size_t\<close>, the test of \<open>allocate\<close> compares the wrapped sum: at the cursor
  4097 the call \<open>allocate(2 ^ 64 - 15, 16)\<close> has the padding 15, the sum wraps around to 0,
  and no block is acquired.
\<close>

theorem C4_block_too_small:
  "unat (capacity fresh_stack) < unat (spec_padding 32 fresh_stack) + unat (2000 :: size_t)
   \<and> fresh_block_fits (Some 8208) 2000 32 fresh_stack
   \<and> allocate doubling (Some 8208) 2000 32 fresh_stack = Inl BlockTooSmall
   \<and> unat (capacity (stack_at 4097))
       < unat (spec_padding 16 (stack_at 4097)) + unat (18446744073709551601 :: size_t)
   \<and> allocate doubling (Some 8208) 18446744073709551601 16 (stack_at 4097)
       = Inr (4112, stack_at 4097)"
  by (simp add: fresh_block_fits_def region_ok_def next_capacity_def next_block_size_def
        spec_padding_def allocate_block_Some doubling_def run_simps)

section \<open>The invariant\<close>

lemma cursor_step:
  fixes c e d :: "64 word"
  assumes "c \<le> e" and "d \<le> e - c"
  shows "unat (c + d) = unat c + unat d" and "unat (c + d) \<le> unat e"
proof -
  have f: "unat d + unat (0 :: 64 word) \<le> unat (e - c)"
    using assms(2) by (simp add: word_le_nat_alt)
  from cursor_advance [OF assms(1) f]
  show "unat (c + d) = unat c + unat d" and "unat (c + d) \<le> unat e"
    by (simp_all add: word_le_nat_alt)
qed

lemma stack_inv_Cons:
  "used (stack_list s) = b # bs \<Longrightarrow>
   stack_inv s \<longleftrightarrow>
     unat (memory b) \<le> unat (stack_cur s)
     \<and> unat (stack_cur s) \<le> unat (stack_cur_end s)
     \<and> unat (stack_cur_end s) \<le> unat (memory b) + unat (block_size b)"
  by (simp add: stack_inv_def)

lemma stack_inv_nonempty: "stack_inv s \<Longrightarrow> used (stack_list s) \<noteq> []"
  by (auto simp: stack_inv_def)

lemma stack_inv_bump:
  assumes inv: "stack_inv s" and fit: "d \<le> capacity s"
  shows "stack_inv (s\<lparr>stack_cur := stack_cur s + d\<rparr>)"
proof -
  obtain b bs where u: "used (stack_list s) = b # bs"
    using stack_inv_nonempty [OF inv] by (cases "used (stack_list s)") auto
  have i: "unat (memory b) \<le> unat (stack_cur s)" "unat (stack_cur s) \<le> unat (stack_cur_end s)"
      "unat (stack_cur_end s) \<le> unat (memory b) + unat (block_size b)"
    using inv u by (simp_all add: stack_inv_Cons)
  have ce: "stack_cur s \<le> stack_cur_end s" using i(2) by (simp add: word_le_nat_alt)
  have d: "d \<le> stack_cur_end s - stack_cur s" using fit by (simp add: capacity_def)
  note st = cursor_step [OF ce d]
  show ?thesis
    using u i st by (simp add: stack_inv_def)
qed

lemma stack_inv_fresh_block:
  assumes u: "used (stack_list s) = \<lparr>memory = mem, block_size = bsz\<rparr> # bs"
    and c: "stack_cur s = mem + d" and e: "stack_cur_end s = mem + bsz"
    and r: "region_ok mem bsz" and fit: "d \<le> bsz"
  shows "stack_inv s"
proof -
  note re = region_end [OF r]
  have d: "d \<le> mem + bsz - mem" using fit by simp
  note st = cursor_step [OF re(2) d]
  show ?thesis using st re(1) u c e by (simp add: stack_inv_def)
qed

lemma allocate_preserves_inv:
  assumes inv: "stack_inv s"
    and run: "allocate grow raw sz al s = Inr (p, s')"
    and region: "\<forall>mem. raw = Some mem \<longrightarrow> region_ok mem (next_capacity s)"
  shows "stack_inv s'"
proof (cases "capacity s < align_offset al s + sz")
  case False
  then have fit: "align_offset al s + sz \<le> capacity s" by (simp add: not_less)
  have "s' = s\<lparr>stack_cur := stack_cur s + (align_offset al s + sz)\<rparr>"
    using run False by (simp add: allocate_def Let_def bump_eq add.assoc)
  then show ?thesis using stack_inv_bump [OF inv fit] by simp
next
  case True
  show ?thesis
  proof (cases raw)
    case None
    then show ?thesis using run True by (simp add: allocate_def Let_def allocate_block_None)
  next
    case (Some mem)
    let ?off = "align_offset al (s\<lparr>stack_cur := mem\<rparr>)"
    have r: "region_ok mem (next_capacity s)" using region Some by blast
    have pass: "?off + sz \<le> next_capacity s"
      using run True Some
      by (simp add: allocate_def Let_def allocate_block_Some align_offset_cur capacity_def
            next_capacity_def next_block_size_def split: if_splits)
    have s': "s' = snd (bump ?off sz
                (s\<lparr>stack_list :=
                     \<lparr>used = \<lparr>memory = mem, block_size = next_capacity s\<rparr> # used (stack_list s),
                      cur_block_size = grow (next_capacity s)\<rparr>,
                  stack_cur := mem,
                  stack_cur_end := mem + next_capacity s\<rparr>))"
      using run True Some pass
      by (simp add: allocate_def Let_def allocate_block_Some align_offset_cur capacity_def
            next_capacity_def next_block_size_def)
    have f: "used (stack_list s') = \<lparr>memory = mem, block_size = next_capacity s\<rparr> # used (stack_list s)"
        "stack_cur s' = mem + (?off + sz)" "stack_cur_end s' = mem + next_capacity s"
      by (simp_all add: s' snd_bump add.assoc)
    show ?thesis by (rule stack_inv_fresh_block [OF f r pass])
  qed
qed

lemma new_memory_stack_inv:
  assumes "region_ok mem start"
  shows "\<exists>s. new_memory_stack grow (Some mem) start = Inr s \<and> stack_inv s
            \<and> capacity s = start \<and> length (used (stack_list s)) = 1"
proof -
  let ?s = "\<lparr>stack_list = \<lparr>used = [\<lparr>memory = mem, block_size = start\<rparr>],
                             cur_block_size = grow start\<rparr>,
             stack_cur = mem, stack_cur_end = mem + start\<rparr>"
  have n: "new_memory_stack grow (Some mem) start = Inr ?s"
    by (simp add: new_memory_stack_def allocate_block_Some)
  have "stack_inv ?s"
    by (rule stack_inv_fresh_block [where d = 0 and mem = mem and bsz = start and bs = "[]"])
       (use assms in simp_all)
  then show ?thesis using n by (simp add: capacity_def)
qed

lemma stack_inv_cong:
  "used (stack_list s) = used (stack_list s0) \<Longrightarrow> stack_cur s = stack_cur s0
   \<Longrightarrow> stack_cur_end s = stack_cur_end s0 \<Longrightarrow> stack_inv s = stack_inv s0"
  by (simp add: stack_inv_def split: list.splits)

section \<open>The release loop\<close>

lemma unat_ucast_32_64: "unat (ucast (i :: 32 word) :: 64 word) = unat i"
proof -
  have "unat i < 2 ^ 64" using unat_uint_lt [of i] by simp
  then show ?thesis
    by (simp add: unsigned_ucast_eq take_bit_nat_eq_self)
qed

lemma ucast_eq_iff: "(ucast (i :: 32 word) :: 64 word) = diff \<longleftrightarrow> unat i = unat diff"
  by (metis unat_ucast_32_64 word_unat_eq_iff)

lemma unat_inc_32: "unat (i :: 32 word) < n \<Longrightarrow> n < 2 ^ 32 \<Longrightarrow> unat (i + 1) = unat i + 1"
proof -
  assume "unat i < n" "n < 2 ^ 32"
  then have "unat i + unat (1 :: 32 word) < 2 ^ LENGTH(32)" by simp
  then show ?thesis by (simp only: unat_add_lem [THEN iffD1] unat_1)
qed

lemma list_deallocate_Cons:
  "used l = b # bs \<Longrightarrow> list_deallocate l = Some (l\<lparr>used := bs\<rparr>)"
  by (simp add: list_deallocate_def)

lemma list_deallocate_Nil:
  "used l = [] \<Longrightarrow> list_deallocate l = None"
  by (simp add: list_deallocate_def)

lemma unwind_loop_releases:
  "unat diff < 2 ^ 32 \<Longrightarrow> unat i \<le> unat diff \<Longrightarrow> unat diff - unat i = n
   \<Longrightarrow> n \<le> length (used l)
   \<Longrightarrow> unwind_loop i diff l = Inr (l\<lparr>used := drop n (used l)\<rparr>)"
proof (induction n arbitrary: i l)
  case 0
  then have "ucast i = diff" by (simp add: ucast_eq_iff)
  then show ?case by (simp add: unwind_loop.simps)
next
  case (Suc n)
  then have ne: "ucast i \<noteq> diff" by (simp add: ucast_eq_iff)
  obtain b bs where u: "used l = b # bs" using Suc.prems(4) by (cases "used l") auto
  have inc: "unat (i + 1) = unat i + 1"
    using Suc.prems by (intro unat_inc_32 [of i "unat diff"]) auto
  have "unwind_loop (i + 1) diff (l\<lparr>used := bs\<rparr>)
          = Inr (l\<lparr>used := bs\<rparr>\<lparr>used := drop n (used (l\<lparr>used := bs\<rparr>))\<rparr>)"
    using Suc.prems u inc by (intro Suc.IH) auto
  then show ?case
    using ne u by (subst unwind_loop.simps) (simp add: list_deallocate_Cons)
qed

lemma unwind_loop_short:
  "unat diff < 2 ^ 32 \<Longrightarrow> unat i \<le> unat diff \<Longrightarrow> length (used l) < unat diff - unat i
   \<Longrightarrow> unwind_loop i diff l = Inl EmptyChain"
proof (induction "used l" arbitrary: i l)
  case Nil
  then have ne: "ucast i \<noteq> diff" by (auto simp add: ucast_eq_iff)
  then show ?case using Nil(1) by (subst unwind_loop.simps) (simp add: list_deallocate_Nil)
next
  case (Cons b bs)
  then have ne: "ucast i \<noteq> diff" by (auto simp add: ucast_eq_iff)
  have u: "used l = b # bs" using Cons(2) by simp
  have inc: "unat (i + 1) = unat i + 1"
    using Cons.prems by (intro unat_inc_32 [of i "unat diff"]) auto
  have "unwind_loop (i + 1) diff (l\<lparr>used := bs\<rparr>) = Inl EmptyChain"
    using Cons.prems u inc by (intro Cons(1)) auto
  then show ?case
    using ne u by (subst unwind_loop.simps) (simp add: list_deallocate_Cons)
qed

lemma unwind_loop_never_meets:
  "2 ^ 32 \<le> unat diff \<Longrightarrow> unwind_loop i diff l = Inl EmptyChain"
proof (induction "used l" arbitrary: i l)
  case Nil
  have ne: "ucast i \<noteq> diff" using Nil(2) unat_uint_lt [of i] by (auto simp add: ucast_eq_iff)
  then show ?case using Nil(1) by (subst unwind_loop.simps) (simp add: list_deallocate_Nil)
next
  case (Cons b bs)
  have ne: "ucast i \<noteq> diff" using Cons(3) unat_uint_lt [of i] by (auto simp add: ucast_eq_iff)
  have u: "used l = b # bs" using Cons(2) by simp
  have "unwind_loop (i + 1) diff (l\<lparr>used := bs\<rparr>) = Inl EmptyChain"
    using Cons.prems by (intro Cons(1)) auto
  then show ?case
    using ne u by (subst unwind_loop.simps) (simp add: list_deallocate_Cons)
qed

lemma unwind_loop_from_zero:
  "unwind_loop 0 diff l =
     (if unat diff < 2 ^ 32 \<and> unat diff \<le> length (used l)
      then Inr (l\<lparr>used := drop (unat diff) (used l)\<rparr>)
      else Inl EmptyChain)"
proof (cases "unat diff < 2 ^ 32")
  case True
  show ?thesis
  proof (cases "unat diff \<le> length (used l)")
    case le: True
    then show ?thesis using True unwind_loop_releases [of diff 0 "unat diff" l] by simp
  next
    case False
    then show ?thesis using True unwind_loop_short [of diff 0 l] by simp
  qed
next
  case False
  then show ?thesis using unwind_loop_never_meets [of diff 0 l] by simp
qed

lemma unwind_eq:
  "unwind m s =
     (if unat (unwind_diff m s) < 2 ^ 32
         \<and> unat (unwind_diff m s) \<le> length (used (stack_list s))
      then Inr (s\<lparr>stack_list :=
                    (stack_list s)\<lparr>used := drop (unat (unwind_diff m s)) (used (stack_list s))\<rparr>,
                  stack_cur := cur m, stack_cur_end := cur_end m\<rparr>)
      else Inl EmptyChain)"
  by (simp add: unwind_def Let_def unwind_loop_from_zero)

lemma unwind_diff_top:
  assumes "used (stack_list s1) = new @ used (stack_list s0)"
  shows "unwind_diff (top_marker s0) s1 = of_nat (length new)"
  using assms by (simp add: unwind_diff_def top_marker_def list_size_def)

lemma unat_of_nat_64: "n < 2 ^ 64 \<Longrightarrow> unat (of_nat n :: 64 word) = n"
  by (simp add: unat_of_nat)

lemma unwind_to_mark:
  assumes ext: "used (stack_list s1) = new @ used (stack_list s0)"
    and n: "length new < 2 ^ 32"
  shows "\<exists>s2. unwind (top_marker s0) s1 = Inr s2
           \<and> used (stack_list s2) = used (stack_list s0)
           \<and> stack_cur s2 = stack_cur s0 \<and> stack_cur_end s2 = stack_cur_end s0"
proof -
  have "length new < 2 ^ 64" using n by simp
  then have d: "unat (unwind_diff (top_marker s0) s1) = length new"
    using unwind_diff_top [OF ext] by (simp add: unat_of_nat_64)
  show ?thesis
    using d n ext by (simp add: unwind_eq top_marker_def)
qed

lemma unwind_returns_mark:
  assumes ext: "used (stack_list s1) = new @ used (stack_list s0)"
    and len: "length (used (stack_list s1)) < 2 ^ 64"
    and run: "unwind (top_marker s0) s1 = Inr s2"
  shows "used (stack_list s2) = used (stack_list s0)
           \<and> stack_cur s2 = stack_cur s0 \<and> stack_cur_end s2 = stack_cur_end s0"
proof -
  have "length new < 2 ^ 64" using len ext by simp
  then have d: "unat (unwind_diff (top_marker s0) s1) = length new"
    using unwind_diff_top [OF ext] by (simp add: unat_of_nat_64)
  show ?thesis
    using run d ext by (auto simp add: unwind_eq top_marker_def split: if_splits)
qed


lemma allocate_extends:
  assumes "allocate grow raw sz al s = Inr (p, s')"
  shows "\<exists>new. used (stack_list s') = new @ used (stack_list s) \<and> length new \<le> 1"
proof (cases "capacity s < align_offset al s + sz")
  case False
  then have "stack_list s' = stack_list s"
    using assms by (auto simp add: allocate_def Let_def bump_eq)
  then show ?thesis by simp
next
  case True
  show ?thesis
  proof (cases raw)
    case None
    then show ?thesis using assms True by (simp add: allocate_def Let_def allocate_block_None)
  next
    case (Some mem)
    then have "used (stack_list s')
        = [\<lparr>memory = mem, block_size = cur_block_size (stack_list s)\<rparr>] @ used (stack_list s)"
      using assms True
      by (auto simp add: allocate_def Let_def allocate_block_Some bump_eq split: if_splits)
    then show ?thesis by (intro exI [of _ "[\<lparr>memory = mem, block_size = cur_block_size (stack_list s)\<rparr>]"]) simp
  qed
qed

lemma allocate_seq_extends:
  "allocate_seq grow rs s = Inr (ps, s')
   \<Longrightarrow> \<exists>new. used (stack_list s') = new @ used (stack_list s) \<and> length new \<le> length rs"
proof (induction rs arbitrary: s ps)
  case Nil
  then show ?case by simp
next
  case (Cons r rs)
  obtain raw sz al where r: "r = (raw, sz, al)" by (cases r) auto
  from Cons.prems r obtain p s1 ps' where
      a: "allocate grow raw sz al s = Inr (p, s1)"
      and b: "allocate_seq grow rs s1 = Inr (ps', s')"
    by (auto split: sum.splits)
  from allocate_extends [OF a] obtain n1 where
      n1: "used (stack_list s1) = n1 @ used (stack_list s)" "length n1 \<le> 1" by blast
  from Cons.IH [OF b] obtain n2 where
      n2: "used (stack_list s') = n2 @ used (stack_list s1)" "length n2 \<le> length rs" by blast
  show ?case
    using n1 n2 by (intro exI [of _ "n2 @ n1"]) simp
qed

section \<open>Unwinding to a marker\<close>

text \<open>As long as fewer than \<open>2 ^ 32\<close> blocks were acquired since the marker was taken,
  \<open>unwind\<close> releases exactly those blocks and restores the cursor, the block end and the
  capacity.\<close>

lemma unwind_restores_mark:
  assumes run: "allocate_seq grow rs s = Inr (ps, s1)"
    and few: "length (used (stack_list s1)) - length (used (stack_list s)) < 2 ^ 32"
  shows "\<exists>s2. unwind (top_marker s) s1 = Inr s2
           \<and> used (stack_list s2) = used (stack_list s)
           \<and> stack_cur s2 = stack_cur s \<and> stack_cur_end s2 = stack_cur_end s
           \<and> capacity s2 = capacity s
           \<and> unat (unwind_diff (top_marker s) s1)
               = length (used (stack_list s1)) - length (used (stack_list s))"
proof -
  from allocate_seq_extends [OF run] obtain new where
      ext: "used (stack_list s1) = new @ used (stack_list s)" by blast
  have n: "length new < 2 ^ 32" using few ext by simp
  then have "length new < 2 ^ 64" by simp
  then have d: "unat (unwind_diff (top_marker s) s1) = length new"
    using unwind_diff_top [OF ext] by (simp add: unat_of_nat_64)
  from unwind_to_mark [OF ext n] show ?thesis
    using d ext by (auto simp add: capacity_def)
qed

lemma allocate_on_full:
  assumes "capacity s = 0" "next_capacity s = 16"
  shows "\<exists>p s'. allocate same_size (Some a) 16 1 s = Inr (p, s')
           \<and> used (stack_list s') = \<lparr>memory = a, block_size = 16\<rparr> # used (stack_list s)
           \<and> capacity s' = 0 \<and> next_capacity s' = 16"
  using assms
  by (simp add: allocate_def Let_def align_offset_def allocate_block_Some bump_eq capacity_def
        next_capacity_def next_block_size_def same_size_def)

lemma allocate_seq_on_full:
  assumes "capacity s = 0" "next_capacity s = 16"
    and "\<forall>r \<in> set rs. \<exists>a. r = (Some a, 16, 1)"
  shows "\<exists>ps s'. allocate_seq same_size rs s = Inr (ps, s')
           \<and> length (used (stack_list s')) = length (used (stack_list s)) + length rs
           \<and> capacity s' = 0 \<and> next_capacity s' = 16"
  using assms
proof (induction rs arbitrary: s)
  case Nil
  then show ?case by simp
next
  case (Cons r rs)
  then obtain a where r: "r = (Some a, 16, 1)" by auto
  from allocate_on_full [OF Cons.prems(1,2), of a] obtain p s1 where
      a: "allocate same_size (Some a) 16 1 s = Inr (p, s1)"
      "used (stack_list s1) = \<lparr>memory = a, block_size = 16\<rparr> # used (stack_list s)"
      "capacity s1 = 0" "next_capacity s1 = 16"
    by blast
  have rest: "\<forall>r \<in> set rs. \<exists>a. r = (Some a, 16, 1)" using Cons.prems(3) by simp
  from Cons.IH [OF a(3) a(4) rest] obtain ps s' where
      b: "allocate_seq same_size rs s1 = Inr (ps, s')"
      "length (used (stack_list s')) = length (used (stack_list s1)) + length rs"
      "capacity s' = 0" "next_capacity s' = 16"
    by blast
  show ?case using a b r by simp
qed

lemma block_requests_shape:
  "length (block_requests n) = n" "\<forall>r \<in> set (block_requests n). \<exists>a. r = (Some a, 16, 1)"
  by (auto simp add: block_requests_def)

lemma full_stack_reached:
  "new_memory_stack same_size (Some 4096) 16
     = Inr (full_stack\<lparr>stack_cur := 4096\<rparr>)
   \<and> allocate same_size None 16 1 (full_stack\<lparr>stack_cur := 4096\<rparr>) = Inr (4096, full_stack)"
  by (simp add: new_memory_stack_def allocate_block_Some same_size_def full_stack_def
        allocate_def align_offset_def capacity_def bump_def Let_def)

text \<open>
  Claim C3: for a marker taken with \<open>top\<close> and any allocations after it, \<open>unwind\<close>
  releases exactly the blocks acquired since and brings block count and capacity back.
  The code does not do so once \<open>2 ^ 32\<close> blocks have been acquired after the marker:
  the number of blocks to release is then \<open>2 ^ 32\<close>, which the 32-bit loop counter
  never equals, so the loop releases every block of the chain, the marker's own
  included, and then asks an empty chain for one more.
\<close>

theorem C3_counter_wraps:
  "(case allocate_seq same_size (block_requests (2 ^ 32)) full_stack of
      Inl e \<Rightarrow> False
    | Inr (ps, s1) \<Rightarrow>
        length (used (stack_list s1)) = length (used (stack_list full_stack)) + 2 ^ 32
        \<and> unwind_diff (top_marker full_stack) s1 = 2 ^ 32
        \<and> unwind (top_marker full_stack) s1 = Inl EmptyChain)"
proof -
  have c: "capacity full_stack = 0" "next_capacity full_stack = 16"
    by (simp_all add: full_stack_def capacity_def next_capacity_def next_block_size_def)
  from allocate_seq_on_full [OF c block_requests_shape(2), of "2 ^ 32"]
  obtain ps s1 where
      run: "allocate_seq same_size (block_requests (2 ^ 32)) full_stack = Inr (ps, s1)"
      and len: "length (used (stack_list s1))
                  = length (used (stack_list full_stack)) + length (block_requests (2 ^ 32))"
    by blast
  have len': "length (used (stack_list s1)) = length (used (stack_list full_stack)) + 2 ^ 32"
    using len by (simp only: block_requests_shape(1))
  from allocate_seq_extends [OF run] obtain new where
      ext: "used (stack_list s1) = new @ used (stack_list full_stack)" by blast
  have "length new = 2 ^ 32" using len' ext by simp
  then have d: "unwind_diff (top_marker full_stack) s1 = 2 ^ 32"
    using unwind_diff_top [OF ext] by simp
  then have "2 ^ 32 \<le> unat (unwind_diff (top_marker full_stack) s1)" by simp
  then have "unwind (top_marker full_stack) s1 = Inl EmptyChain"
    by (simp add: unwind_eq)
  then show ?thesis using run len' d by simp
qed

section \<open>The number of blocks to release\<close>

lemma unwind_diff_exact:
  assumes n: "length (used (stack_list s)) < 2 ^ 64"
    and pre: "unat (index m) + 1 \<le> length (used (stack_list s))"
  shows "unat (unwind_diff m s) = length (used (stack_list s)) - unat (index m) - 1"
proof -
  let ?n = "length (used (stack_list s))"
  have un: "unat (of_nat ?n :: 64 word) = ?n" using n by (simp add: unat_of_nat_64)
  have le: "index m \<le> of_nat ?n" using pre un by (simp add: word_le_nat_alt)
  have a: "unat (of_nat ?n - index m) = ?n - unat (index m)"
    using le un by (simp add: unat_sub)
  have "(1 :: 64 word) \<le> of_nat ?n - index m" using a pre by (simp add: word_le_nat_alt)
  then have "unat (of_nat ?n - index m - 1) = ?n - unat (index m) - 1"
    using a by (simp add: unat_sub)
  then show ?thesis by (simp add: unwind_diff_def list_size_def)
qed

lemma unwind_diff_wraps:
  assumes n: "length (used (stack_list s)) < 2 ^ 64"
    and pre: "length (used (stack_list s)) \<le> unat (index m)"
  shows "unat (unwind_diff m s) = 2 ^ 64 - (unat (index m) + 1 - length (used (stack_list s)))"
proof -
  let ?n = "length (used (stack_list s))"
  have un: "unat (of_nat ?n :: 64 word) = ?n" using n by (simp add: unat_of_nat_64)
  have i: "unat (index m) < 2 ^ 64" by (rule unat_size_lt)
  have a: "unat (of_nat ?n - index m)
             = (if unat (index m) \<le> ?n then ?n - unat (index m) else ?n + 2 ^ 64 - unat (index m))"
    using un by (simp add: unat_sub_if')
  have "unat (of_nat ?n - index m - 1)
          = (if 1 \<le> unat (of_nat ?n - index m) then unat (of_nat ?n - index m) - 1
             else unat (of_nat ?n - index m) + 2 ^ 64 - 1)"
    by (simp add: unat_sub_if')
  then have "unat (of_nat ?n - index m - 1) = 2 ^ 64 - (unat (index m) + 1 - ?n)"
    using a pre i by (auto split: if_splits)
  then show ?thesis by (simp add: unwind_diff_def list_size_def)
qed

text \<open>Under the precondition the count is exact, and a count below \<open>2 ^ 32\<close> is the number
  of deallocations the loop of \<open>unwind\<close> performs, most recent block first.\<close>

lemma unwind_count_below_counter_range:
  assumes "length (used (stack_list s)) < 2 ^ 64"
    and "unat (index m) + 1 \<le> length (used (stack_list s))"
    and "unat (unwind_diff m s) < 2 ^ 32"
  shows "\<exists>s'. unwind m s = Inr s'
           \<and> used (stack_list s') = drop (unat (unwind_diff m s)) (used (stack_list s))
           \<and> length (used (stack_list s')) + unat (unwind_diff m s)
               = length (used (stack_list s))"
  using unwind_diff_exact [OF assms(1,2)] assms(2,3) by (simp add: unwind_eq)

text \<open>
  Claim C10: under the precondition \<open>marker.index \<le> block_count - 1\<close> the subtraction
  \<open>block_count - marker.index - 1\<close> does not underflow and the release loop performs
  exactly that many deallocations. The code does not meet the second part. For the
  marker taken on the stack of 16-byte blocks and \<open>2 ^ 32\<close> blocks acquired after it, the
  precondition holds and the count is \<open>2 ^ 32\<close> without underflow; the 32-bit counter of
  the loop never equals it, and the loop goes on until the chain is empty and a
  deallocation more is asked of it.
\<close>

theorem C10_loop_never_stops:
  "(case allocate_seq same_size (block_requests (2 ^ 32)) full_stack of
      Inl e \<Rightarrow> False
    | Inr (ps, s1) \<Rightarrow>
        index (top_marker full_stack) \<le> list_size (stack_list s1) - 1
        \<and> unat (index (top_marker full_stack)) + 1 \<le> length (used (stack_list s1))
        \<and> unat (unwind_diff (top_marker full_stack) s1)
            = length (used (stack_list s1)) - unat (index (top_marker full_stack)) - 1
        \<and> unat (unwind_diff (top_marker full_stack) s1) = 2 ^ 32
        \<and> unwind_loop 0 (unwind_diff (top_marker full_stack) s1) (stack_list s1)
            = Inl EmptyChain)"
proof -
  have c: "capacity full_stack = 0" "next_capacity full_stack = 16"
    by (simp_all add: full_stack_def capacity_def next_capacity_def next_block_size_def)
  from allocate_seq_on_full [OF c block_requests_shape(2), of "2 ^ 32"]
  obtain ps s1 where
      run: "allocate_seq same_size (block_requests (2 ^ 32)) full_stack = Inr (ps, s1)"
      and len: "length (used (stack_list s1))
                  = length (used (stack_list full_stack)) + length (block_requests (2 ^ 32))"
    by blast
  have len': "length (used (stack_list s1)) = 1 + 2 ^ 32"
    using len by (simp only: block_requests_shape(1)) (simp add: full_stack_def)
  have i: "index (top_marker full_stack) = 0"
    by (simp add: top_marker_def list_size_def full_stack_def)
  have sz: "list_size (stack_list s1) = 2 ^ 32 + 1"
    using len' by (simp add: list_size_def)
  have d: "unwind_diff (top_marker full_stack) s1 = 2 ^ 32"
    using i sz by (simp add: unwind_diff_def)
  have "2 ^ 32 \<le> unat (unwind_diff (top_marker full_stack) s1)" using d by simp
  then have "unwind_loop 0 (unwind_diff (top_marker full_stack) s1) (stack_list s1)
               = Inl EmptyChain"
    by (rule unwind_loop_never_meets)
  then show ?thesis using run len' i sz d by simp
qed

section \<open>Preservation of the invariant\<close>

text \<open>\<open>unwind\<close> to a marker of the same stack, taken when the invariant held and with its
  blocks still in the chain, keeps the invariant whenever it returns.\<close>

lemma unwind_preserves_inv:
  assumes "stack_inv s0" and "used (stack_list s1) = new @ used (stack_list s0)"
    and "length (used (stack_list s1)) < 2 ^ 64"
    and "unwind (top_marker s0) s1 = Inr s2"
  shows "stack_inv s2"
  using unwind_returns_mark [OF assms(2,3,4)] assms(1) stack_inv_cong [of s2 s0] by blast

text \<open>
  Claim C6: construction, \<open>allocate\<close> under the precondition that a freshly acquired block
  can hold the padded request, and \<open>unwind\<close> with a marker of the same stack keep the
  cursor at or below the block end, both within the active block or one past its end.
  The code does not meet it for \<open>allocate\<close>. The fresh stack satisfies the invariant, and
  for \<open>allocate(2000, 32)\<close> the block of 2048 bytes at 8208 holds the request with its
  padding of 16 bytes; the code pads by 256 bytes instead: a build with assertions stops
  at the assertion, and a release build moves the cursor to 10464, beyond the block end
  10256.
\<close>

theorem C6_cursor_past_block_end:
  "stack_inv fresh_stack
   \<and> fresh_block_fits (Some 8208) 2000 32 fresh_stack
   \<and> allocate doubling (Some 8208) 2000 32 fresh_stack = Inl BlockTooSmall
   \<and> allocate_ndebug doubling (Some 8208) 2000 32 fresh_stack = Inr (8464, overrun_stack)
   \<and> stack_cur_end overrun_stack < stack_cur overrun_stack
   \<and> \<not> stack_inv overrun_stack"
  by (simp add: fresh_block_fits_def region_ok_def next_capacity_def next_block_size_def
        spec_padding_def allocate_block_Some doubling_def stack_inv_def allocate_ndebug_def
        overrun_stack_def run_simps)

section \<open>Alignment of the returned pointer\<close>

lemma odd_sum_no_power:
  fixes x y :: nat
  assumes "odd (x + y)" "0 < x" "0 < y" "x < 2 ^ n" "y < 2 ^ n"
  shows "\<not> 2 ^ n dvd x * y"
proof
  assume d: "(2::nat) ^ n dvd x * y"
  from assms(1) consider "odd x" | "odd y" by auto
  then show False
  proof cases
    case 1
    then have "coprime ((2::nat) ^ n) x" by simp
    then have "(2::nat) ^ n dvd y" using d by (simp add: coprime_dvd_mult_right_iff)
    then have "(2::nat) ^ n \<le> y" using assms(3) by (auto dest: dvd_imp_le)
    then show False using assms(5) by linarith
  next
    case 2
    then have "coprime ((2::nat) ^ n) y" by simp
    then have "(2::nat) ^ n dvd x" using d by (simp add: coprime_dvd_mult_left_iff)
    then have "(2::nat) ^ n \<le> x" using assms(2) by (auto dest: dvd_imp_le)
    then show False using assms(4) by linarith
  qed
qed

lemma bumped_mod:
  fixes C M A :: nat
  assumes M: "M = C mod A" and A: "A = 2 ^ k" and k: "k \<le> n"
  shows "((C + (M * (A - M)) mod 2 ^ n) mod 2 ^ n) mod A = (M * (A + 1 - M)) mod A"
proof -
  have dv: "A dvd (2::nat) ^ n" using A k by (simp add: le_imp_power_dvd)
  have lt: "M \<le> A" using M A by (simp add: mod_le_divisor)
  have "((C + (M * (A - M)) mod 2 ^ n) mod 2 ^ n) mod A = (C + (M * (A - M)) mod 2 ^ n) mod A"
    using dv by (rule mod_mod_cancel)
  also have "\<dots> = (C mod A + ((M * (A - M)) mod 2 ^ n) mod A) mod A"
    by (simp add: mod_add_eq)
  also have "((M * (A - M)) mod 2 ^ n) mod A = (M * (A - M)) mod A"
    using dv by (rule mod_mod_cancel)
  also have "(C mod A + (M * (A - M)) mod A) mod A = (M + M * (A - M)) mod A"
    using M by (simp add: mod_add_right_eq)
  also have "M + M * (A - M) = M * (A + 1 - M)"
    using lt by (simp add: algebra_simps)
  finally show ?thesis .
qed

lemma bumped_aligned_nat:
  fixes C :: nat
  assumes k: "k \<le> n"
  shows "((C + (C mod 2 ^ k * (2 ^ k - C mod 2 ^ k)) mod 2 ^ n) mod 2 ^ n) mod 2 ^ k = 0
         \<longleftrightarrow> C mod 2 ^ k = 0 \<or> C mod 2 ^ k = 1"
proof -
  define M where "M = C mod 2 ^ k"
  define A :: nat where "A = 2 ^ k"
  have MA: "M < A" by (simp add: M_def A_def)
  have eq: "((C + (M * (A - M)) mod 2 ^ n) mod 2 ^ n) mod A = (M * (A + 1 - M)) mod A"
    by (rule bumped_mod [OF _ _ k]) (simp_all add: M_def A_def)
  have "(M * (A + 1 - M)) mod A = 0 \<longleftrightarrow> M = 0 \<or> M = 1"
  proof (cases "M = 0 \<or> M = 1")
    case True
    then show ?thesis by auto
  next
    case False
    then have M2: "2 \<le> M" by linarith
    then have k1: "1 \<le> k" using MA A_def by (cases k) auto
    then have "even A" by (simp add: A_def)
    then have "odd (M + (A + 1 - M))" using MA by simp
    moreover have "A + 1 - M < 2 ^ k" "M < 2 ^ k" "0 < A + 1 - M" "0 < M"
      using M2 MA by (simp_all add: A_def)
    ultimately have "\<not> 2 ^ k dvd M * (A + 1 - M)"
      by (intro odd_sum_no_power) auto
    then show ?thesis using False by (simp add: A_def dvd_eq_mod_eq_0)
  qed
  then show ?thesis using eq by (simp add: M_def A_def)
qed

text \<open>The address \<open>allocate\<close> returns is the cursor plus \<open>align_offset\<close>. For an alignment
  \<open>2 ^ k\<close> it is a multiple of the alignment exactly when the cursor is misaligned by 0 or
  by 1.\<close>

lemma bumped_pointer_aligned_iff:
  assumes k: "k < 64"
  shows "(stack_cur s + align_offset (2 ^ k) s) mod 2 ^ k = 0
         \<longleftrightarrow> stack_cur s mod 2 ^ k = 0 \<or> stack_cur s mod 2 ^ k = 1"
proof -
  let ?c = "stack_cur s"
  define m where "m = ?c mod 2 ^ k"
  have k64: "k < LENGTH(64)" "k \<le> LENGTH(64)" using k by simp_all
  have um: "unat m = unat ?c mod 2 ^ k" using k64 by (simp add: m_def unat_mod_p2)
  have lt: "unat m < 2 ^ k" using um by simp
  have le: "m \<le> 2 ^ k" using lt k64 by (simp add: word_le_nat_alt unat_p2)
  have y: "unat (2 ^ k - m) = 2 ^ k - unat m" using le k64 by (simp add: unat_sub unat_p2)
  have off: "align_offset (2 ^ k) s = m * (2 ^ k - m)"
    by (simp add: align_offset_def Let_def and_p2m1_eq_mod m_def)
  have 1: "unat ((?c + m * (2 ^ k - m)) mod 2 ^ k) = unat (?c + m * (2 ^ k - m)) mod 2 ^ k"
    using k64(1) by (rule unat_mod_p2)
  have 2: "unat (?c + m * (2 ^ k - m))
             = (unat ?c + unat (m * (2 ^ k - m))) mod 2 ^ LENGTH(64)"
    by (simp only: unat_word_ariths)
  have 3: "unat (m * (2 ^ k - m)) = (unat m * (2 ^ k - unat m)) mod 2 ^ LENGTH(64)"
    by (simp only: unat_word_ariths y)
  have "unat ((?c + m * (2 ^ k - m)) mod 2 ^ k)
          = ((unat ?c + (unat m * (2 ^ k - unat m)) mod 2 ^ LENGTH(64)) mod 2 ^ LENGTH(64)) mod 2 ^ k"
    by (simp only: 1 2 3)
  also have "\<dots> = 0 \<longleftrightarrow> unat ?c mod 2 ^ k = 0 \<or> unat ?c mod 2 ^ k = 1"
    unfolding um by (rule bumped_aligned_nat [OF k64(2)])
  finally have "unat ((?c + m * (2 ^ k - m)) mod 2 ^ k) = 0 \<longleftrightarrow> unat m = 0 \<or> unat m = 1"
    using um by simp
  moreover have "unat m = 1 \<longleftrightarrow> m = 1" by (metis unat_1 word_unat_eq_iff)
  ultimately show ?thesis
    by (simp add: off unat_eq_0 m_def)
qed

text \<open>
  Claim C1: for a power-of-two alignment the pointer \<open>allocate\<close> returns is a multiple of
  the alignment, also after a switch to a new block. The code does not meet it, since
  \<open>align_offset\<close> multiplies where its comment chooses. In the scenario of section 8 of
  the specification (start size 1024, first block at 4096) the calls \<open>allocate(100, 16)\<close>
  and \<open>allocate(50, 16)\<close> return 4096 and 4244, and 4244 leaves the remainder 4 modulo 16.
  A call \<open>allocate(1025, 32)\<close> on the fresh stack switches to a block at 8208 and returns
  8464, which leaves the remainder 16 modulo 32.
\<close>

theorem C1_pointer_not_aligned:
  "new_memory_stack doubling (Some 4096) 1024 = Inr fresh_stack
   \<and> allocate_seq doubling two_requests fresh_stack = Inr ([4096, 4244], stack_at 4294)
   \<and> (4244 :: addr) mod 16 = 4
   \<and> allocate doubling (Some 8208) 1025 32 fresh_stack
       = Inr (8464,
              \<lparr>stack_list =
                 \<lparr>used = [\<lparr>memory = 8208, block_size = 2048\<rparr>,
                          \<lparr>memory = 4096, block_size = 1024\<rparr>],
                  cur_block_size = 4096\<rparr>,
               stack_cur = 9489, stack_cur_end = 10256\<rparr>)
   \<and> (8464 :: addr) mod 32 = 16"
  by (simp add: new_memory_stack_def allocate_block_Some two_requests_def doubling_def
        run_simps)

section \<open>A padding of zero\<close>

text \<open>For alignments up to \<open>2 ^ 32\<close> the product in \<open>align_offset\<close> does not overflow, and
  the padding is 0 exactly for an aligned cursor.\<close>

lemma align_offset_zero_iff:
  assumes k: "k \<le> 32"
  shows "align_offset (2 ^ k) s = 0 \<longleftrightarrow> stack_cur s mod 2 ^ k = 0"
proof -
  define m where "m = stack_cur s mod 2 ^ k"
  have k64: "k < LENGTH(64)" using k by simp
  have lt: "unat m < 2 ^ k"
    using k64 by (simp add: m_def unat_mod_p2)
  have p32: "(2::nat) ^ k \<le> 2 ^ 32" using k by (intro power_increasing) auto
  have le: "m \<le> 2 ^ k" using lt k64 by (simp add: word_le_nat_alt unat_p2)
  have y: "unat (2 ^ k - m) = 2 ^ k - unat m" using le k64 by (simp add: unat_sub unat_p2)
  have "unat m * (2 ^ k - unat m) \<le> (2 ^ 32 - 1) * 2 ^ 32"
    using lt p32 by (intro mult_mono) auto
  then have "unat m * unat (2 ^ k - m) < 2 ^ LENGTH(64)" using y by simp
  then have "unat (m * (2 ^ k - m)) = unat m * (2 ^ k - unat m)"
    using y by (simp only: unat_mult_lem [THEN iffD1])
  moreover have "align_offset (2 ^ k) s = m * (2 ^ k - m)"
    by (simp add: align_offset_def Let_def and_p2m1_eq_mod m_def)
  ultimately have "align_offset (2 ^ k) s = 0 \<longleftrightarrow> unat m * (2 ^ k - unat m) = 0"
    by (metis unat_eq_0)
  also have "\<dots> \<longleftrightarrow> unat m = 0" using lt by auto
  also have "\<dots> \<longleftrightarrow> m = 0" by (simp add: unat_eq_0)
  finally show ?thesis by (simp add: m_def)
qed

text \<open>
  Claim C9: for a power-of-two alignment \<open>align_offset\<close> returns 0 if and only if the
  cursor is a multiple of the alignment. The code does not meet it for every alignment:
  on a stack whose block starts at the address \<open>2 ^ 32\<close> and for the alignment \<open>2 ^ 33\<close>
  the misalignment is \<open>2 ^ 32\<close>, the product \<open>2 ^ 32 * 2 ^ 32\<close> wraps around to 0, and
  \<open>allocate(8, 2 ^ 33)\<close> returns the cursor as it is.
\<close>

theorem C9_zero_offset_unaligned:
  "new_memory_stack doubling (Some 4294967296) 1024 = Inr big_stack
   \<and> align_offset 8589934592 big_stack = 0
   \<and> stack_cur big_stack mod 8589934592 = 4294967296
   \<and> allocate doubling None 8 8589934592 big_stack
       = Inr (4294967296, big_stack\<lparr>stack_cur := 4294967304\<rparr>)"
  by (simp add: new_memory_stack_def allocate_block_Some doubling_def big_stack_def
        allocate_def align_offset_def capacity_def bump_def Let_def)

end
